theory Spec2Isabelle
  imports Complex_Main "HOL-Library.Multiset" "HOL-Library.List_Lexorder" "HOL-Library.AList"
begin

section \<open>External merge sort of a line-oriented text file\<close>

text \<open>
  A shallow embedding of \<^verbatim>\<open>external_sort.py\<close> (class \<^verbatim>\<open>ExternalMergeSort\<close>).

  \<^item> A Python \<^verbatim>\<open>str\<close> is the list of its code points. The order of \<^verbatim>\<open>str\<close> is the
    lexicographic order on code points, which is the order of lists from
    \<open>List_Lexorder\<close>; \<^verbatim>\<open>len\<close> is \<open>length\<close>.
  \<^item> The content of a text file is one such string (as Python sees it, after decoding
    and newline translation); iterating over an open file yields its lines, each with
    its terminator \<^verbatim>\<open>'\n'\<close>, except possibly the last one.
  \<^item> The functions of the standard library that the class calls (\<^verbatim>\<open>readlines\<close>,
    \<^verbatim>\<open>heapq.heapify\<close>, \<^verbatim>\<open>heapq.heappop\<close>, \<^verbatim>\<open>heapq.merge\<close>, \<^verbatim>\<open>os.rename\<close>, ...) are
    modelled by what CPython's implementation does with the arguments it is given.
  \<^item> Every exception is a value of type \<open>error\<close>; a method that may raise returns
    \<open>error + 'a\<close>.
\<close>

subsection \<open>Strings, lines and files\<close>

type_synonym pystr = "nat list"

definition NL :: nat where
  "NL = 10"

text \<open>Iteration over a text file: the lines, terminators kept.\<close>

fun file_lines :: "pystr \<Rightarrow> pystr list" where
  "file_lines [] = []"
| "file_lines (c # cs) =
     (if c = NL then [c] # file_lines cs
      else (case file_lines cs of [] \<Rightarrow> [[c]] | l # ls \<Rightarrow> (c # l) # ls))"



datatype error =
    OverflowError | ValueError | ZeroDivisionError | IndexError
  | FileNotFoundError | OSError | UnboundLocalError

subsection \<open>\<^verbatim>\<open>readlines(hint)\<close>\<close>

text \<open>
  \<^verbatim>\<open>f.readlines(hint)\<close> of an open text file (CPython, \<^verbatim>\<open>_io._IOBase.readlines\<close>):
  with \<^verbatim>\<open>hint <= 0\<close> every remaining line is returned; otherwise lines are appended one by
  one, and reading stops after the first line whose length exceeds \<^verbatim>\<open>hint - length\<close>,
  where \<^verbatim>\<open>length\<close> is the total length of the lines appended before it. The result is the
  block and the lines left in the stream.
\<close>

fun read_block :: "int \<Rightarrow> int \<Rightarrow> pystr list \<Rightarrow> pystr list \<times> pystr list" where
  "read_block hint len [] = ([], [])"
| "read_block hint len (l # ls) =
     (if int (length l) > hint - len then ([l], ls)
      else (case read_block hint (len + int (length l)) ls of (b, r) \<Rightarrow> (l # b, r)))"

definition readlines :: "int \<Rightarrow> pystr list \<Rightarrow> pystr list \<times> pystr list" where
  "readlines hint ls = (if hint \<le> 0 then (ls, []) else read_block hint 0 ls)"

definition total_size :: "pystr list \<Rightarrow> int" where
  "total_size ls = (\<Sum>l\<leftarrow>ls. int (length l))"

subsection \<open>\<^verbatim>\<open>heapq\<close>\<close>

text \<open>
  A heap of \<^verbatim>\<open>heapq\<close> is a list; the model keeps the items and abstracts from their
  arrangement in the array. \<^verbatim>\<open>heapify\<close> rearranges the list in place; \<^verbatim>\<open>heappop\<close>
  removes and returns the smallest item and raises \<^verbatim>\<open>IndexError\<close> on an empty heap.
\<close>

definition heapify :: "'a::linorder list \<Rightarrow> 'a list" where
  "heapify xs = xs"

definition heappop :: "'a::linorder list \<Rightarrow> error + ('a \<times> 'a list)" where
  "heappop h = (if h = [] then Inl IndexError
                else Inr (Min (set h), remove1 (Min (set h)) h))"

text \<open>
  The loop \<^verbatim>\<open>for _ in range(len(block_lines)): temp_file.write(heapq.heappop(block_lines))\<close>
  with the written lines collected.
\<close>

fun pop_all :: "nat \<Rightarrow> 'a::linorder list \<Rightarrow> error + 'a list" where
  "pop_all 0 h = Inr []"
| "pop_all (Suc n) h =
     (case heappop h of Inl e \<Rightarrow> Inl e
      | Inr (x, h') \<Rightarrow> (case pop_all n h' of Inl e \<Rightarrow> Inl e | Inr xs \<Rightarrow> Inr (x # xs)))"

text \<open>
  \<^verbatim>\<open>heapq.merge(*iterables)\<close>. The heap holds one entry \<^verbatim>\<open>[value, order, next]\<close> for each
  input that is not exhausted: the current head, the index of the input among the
  arguments, and the rest of the input. Entries are compared as Python lists: by value,
  then by order (orders are distinct, so \<^verbatim>\<open>next\<close> is never compared). Each step yields
  the value of \<^verbatim>\<open>h[0]\<close>, the least entry, and replaces that entry by the next one of
  the same input, or pops it when the input is exhausted. When a single entry is left its
  input is yielded to the end. The model yields the order with each value, to tell where
  a line comes from.
\<close>

type_synonym 'a entry = "'a \<times> nat \<times> 'a list"

definition entry_less :: "'a::linorder entry \<Rightarrow> 'a entry \<Rightarrow> bool" where
  "entry_less e f \<longleftrightarrow> fst e < fst f \<or> (fst e = fst f \<and> fst (snd e) < fst (snd f))"

fun heap_top :: "'a::linorder entry \<Rightarrow> 'a entry list \<Rightarrow> 'a entry" where
  "heap_top e [] = e"
| "heap_top e (f # fs) = heap_top (if entry_less f e then f else e) fs"

fun initial_entries :: "nat \<Rightarrow> 'a list list \<Rightarrow> 'a entry list" where
  "initial_entries i [] = []"
| "initial_entries i ([] # xss) = initial_entries (Suc i) xss"
| "initial_entries i ((x # xs) # xss) = (x, i, xs) # initial_entries (Suc i) xss"

definition entries_size :: "'a entry list \<Rightarrow> nat" where
  "entries_size h = (\<Sum>e\<leftarrow>h. Suc (length (snd (snd e))))"

lemma heap_top_in: "heap_top e h \<in> set (e # h)"
  by (induction h arbitrary: e) auto

lemma entries_size_remove1:
  "e \<in> set h \<Longrightarrow> entries_size (remove1 e h) + Suc (length (snd (snd e))) = entries_size h"
  by (induction h) (auto simp: entries_size_def)

lemma heap_top_decreases:
  assumes "(v, p) = heap_top e (f # h)" and "(i, rest) = p"
  shows "entries_size (remove1 (v, i, rest) (e # f # h)) + Suc (length rest)
         = entries_size (e # f # h)"
proof -
  from assms have "(v, i, rest) \<in> set (e # f # h)"
    using heap_top_in [of e "f # h"] by simp
  from entries_size_remove1 [OF this] show ?thesis by simp
qed

function merge_loop :: "'a::linorder entry list \<Rightarrow> ('a \<times> nat) list" where
  "merge_loop [] = []"
| "merge_loop [(v, i, rest)] = (v, i) # map (\<lambda>x. (x, i)) rest"
| "merge_loop (e # f # h) =
     (case heap_top e (f # h) of (v, i, rest) \<Rightarrow>
        (v, i) # (case rest of
                    [] \<Rightarrow> merge_loop (remove1 (v, i, rest) (e # f # h))
                  | x # rest' \<Rightarrow> merge_loop ((x, i, rest') # remove1 (v, i, rest) (e # f # h))))"
  by pat_completeness auto

termination
proof (relation "measure entries_size")
  show "wf (measure entries_size)" by simp
next
  fix e f :: "'a entry" and h v p i rest
  assume "(v, p) = heap_top e (f # h)" "(i, rest) = p" "rest = []"
  then show "(remove1 (v, i, rest) (e # f # h), e # f # h) \<in> measure entries_size"
    using heap_top_decreases [of v p e f h i rest] by simp
next
  fix e f :: "'a entry" and h v p i rest x rest'
  assume "(v, p) = heap_top e (f # h)" "(i, rest) = p" "rest = x # rest'"
  then show "((x, i, rest') # remove1 (v, i, rest) (e # f # h), e # f # h)
             \<in> measure entries_size"
    using heap_top_decreases [of v p e f h i rest] by (simp add: entries_size_def)
qed

definition heapq_merge_tagged :: "'a::linorder list list \<Rightarrow> ('a \<times> nat) list" where
  "heapq_merge_tagged xss = merge_loop (initial_entries 0 xss)"

definition heapq_merge :: "'a::linorder list list \<Rightarrow> 'a list" where
  "heapq_merge xss = map fst (heapq_merge_tagged xss)"

text \<open>
  The items an entry still has to deliver, the same items with the index of their input,
  and the order in which a stable merge delivers items: by value, then by input index.
\<close>

definition entry_stream :: "'a entry \<Rightarrow> 'a list" where
  "entry_stream e = fst e # snd (snd e)"

definition tag_le :: "'a::linorder \<times> nat \<Rightarrow> 'a \<times> nat \<Rightarrow> bool" where
  "tag_le a b \<longleftrightarrow> fst a < fst b \<or> (fst a = fst b \<and> snd a \<le> snd b)"

definition entry_tagged :: "'a entry \<Rightarrow> ('a \<times> nat) set" where
  "entry_tagged e = (\<lambda>x. (x, fst (snd e))) ` set (entry_stream e)"


subsection \<open>Floating point, as far as \<^verbatim>\<open>_get_pass_params\<close> needs it\<close>

text \<open>
  \<^verbatim>\<open>_get_pass_params\<close> computes with Python floats and \<^verbatim>\<open>numpy.float64\<close>, that is with
  IEEE doubles. A finite double is the real number that it denotes. What the machine
  returns for an operation with a finite result is rounded, and for \<^verbatim>\<open>np.log\<close> and
  \<^verbatim>\<open>**\<close> the rounding depends on the mathematical library. These results are therefore
  not computed here: they are the fields of a record \<open>fpu\<close>, which is a parameter of the
  model.

  \<^item> \<open>fp_truediv a b\<close> is the float that Python's \<^verbatim>\<open>a / b\<close> returns for the integers \<open>a\<close>
    and \<open>b \<noteq> 0\<close>;
  \<^item> \<open>fp_sub x y\<close> is \<^verbatim>\<open>x - y\<close>;
  \<^item> \<open>fp_log x\<close> is the finite result of \<^verbatim>\<open>np.log(x)\<close> for \<open>x > 0\<close> (an integer argument
    is converted to a double first: that conversion is part of \<open>fp_log\<close>);
  \<^item> \<open>fp_div x y\<close> is \<^verbatim>\<open>x / y\<close> for two finite doubles, \<open>y \<noteq> 0\<close>;
  \<^item> \<open>fp_pow x y\<close> is \<^verbatim>\<open>x ** y\<close> for an integer \<open>x > 0\<close> and a float \<open>y\<close>.

  A statement that holds for every \<open>fpu\<close> holds for the doubles of the machine, whatever
  their rounding. The special values are kept, with the cases that produce them,
  because \<^verbatim>\<open>numpy\<close> returns them where Python would raise: \<^verbatim>\<open>np.log\<close> of zero
  is an infinity and of a negative number is \<^verbatim>\<open>nan\<close>, a division by zero is an infinity
  or \<^verbatim>\<open>nan\<close>, a finite number divided by an infinity is zero. The sign of an infinity
  (and of a zero) is not kept: the code only divides by an infinity, divides two of
  them, or converts one to \<^verbatim>\<open>int\<close>, and none of these depends on the sign.
  \<^verbatim>\<open>np.ceil\<close> of a finite double is exact. \<^verbatim>\<open>int(x)\<close> truncates towards zero, raises
  \<^verbatim>\<open>OverflowError\<close> on an infinity and \<^verbatim>\<open>ValueError\<close> on \<^verbatim>\<open>nan\<close>. Python's own \<^verbatim>\<open>/\<close> and
  \<^verbatim>\<open>**\<close> raise \<^verbatim>\<open>ZeroDivisionError\<close>. Integers too large for a double are not
  modelled.
\<close>

record fpu =
  fp_truediv :: "int \<Rightarrow> int \<Rightarrow> real"
  fp_sub :: "real \<Rightarrow> real \<Rightarrow> real"
  fp_log :: "real \<Rightarrow> real"
  fp_div :: "real \<Rightarrow> real \<Rightarrow> real"
  fp_pow :: "real \<Rightarrow> real \<Rightarrow> real"

datatype np_float = Fin real | Inf | NaN

definition np_log :: "fpu \<Rightarrow> real \<Rightarrow> np_float" where
  "np_log fp x = (if x < 0 then NaN else if x = 0 then Inf else Fin (fp_log fp x))"

fun np_div :: "fpu \<Rightarrow> np_float \<Rightarrow> np_float \<Rightarrow> np_float" where
  "np_div fp NaN y = NaN"
| "np_div fp x NaN = NaN"
| "np_div fp Inf Inf = NaN"
| "np_div fp Inf (Fin y) = Inf"
| "np_div fp (Fin x) Inf = Fin 0"
| "np_div fp (Fin x) (Fin y) =
     (if y = 0 then (if x = 0 then NaN else Inf) else Fin (fp_div fp x y))"

fun np_ceil :: "np_float \<Rightarrow> np_float" where
  "np_ceil (Fin x) = Fin (of_int \<lceil>x\<rceil>)"
| "np_ceil Inf = Inf"
| "np_ceil NaN = NaN"

definition trunc :: "real \<Rightarrow> int" where
  "trunc x = (if 0 \<le> x then \<lfloor>x\<rfloor> else \<lceil>x\<rceil>)"

fun py_int :: "np_float \<Rightarrow> error + int" where
  "py_int (Fin x) = Inr (trunc x)"
| "py_int Inf = Inl OverflowError"
| "py_int NaN = Inl ValueError"

definition py_truediv :: "fpu \<Rightarrow> int \<Rightarrow> int \<Rightarrow> error + real" where
  "py_truediv fp a b = (if b = 0 then Inl ZeroDivisionError else Inr (fp_truediv fp a b))"

definition py_pow :: "fpu \<Rightarrow> nat \<Rightarrow> real \<Rightarrow> error + real" where
  "py_pow fp n y =
     (if n = 0 then (if y < 0 then Inl ZeroDivisionError else Inr (if y = 0 then 1 else 0))
      else Inr (fp_pow fp (real n) y))"

subsection \<open>\<^verbatim>\<open>_get_pass_params\<close>\<close>

text \<open>
  The arguments are the floating-point unit and the fields \<^verbatim>\<open>self.memory_limit\<close>,
  \<^verbatim>\<open>self.buffer_size\<close>, \<^verbatim>\<open>self.num_split_files\<close> and \<^verbatim>\<open>self.update_buffer_size\<close>; the
  result is \<^verbatim>\<open>(num_merges, num_files_to_merge, buffer_size)\<close>.
\<close>

definition get_pass_params_fp ::
  "fpu \<Rightarrow> int \<Rightarrow> int \<Rightarrow> nat \<Rightarrow> bool \<Rightarrow> error + (int \<times> int \<times> int)" where
  "get_pass_params_fp fp memory_limit buffer_size num_split_files update_buffer_size =
     (case py_truediv fp memory_limit buffer_size of Inl e \<Rightarrow> Inl e | Inr q \<Rightarrow>
      case py_int (np_ceil (np_div fp (Fin 1)
                     (np_div fp (np_log fp (fp_sub fp q 1))
                                (np_log fp (real num_split_files))))) of
        Inl e \<Rightarrow> Inl e
      | Inr num_merges \<Rightarrow>
      case py_truediv fp 1 num_merges of Inl e \<Rightarrow> Inl e | Inr ex \<Rightarrow>
      case py_pow fp num_split_files ex of Inl e \<Rightarrow> Inl e | Inr p \<Rightarrow>
      case py_int (np_ceil (Fin p)) of Inl e \<Rightarrow> Inl e | Inr num_files_to_merge \<Rightarrow>
      if update_buffer_size then
        (case py_truediv fp memory_limit (num_files_to_merge + 1) of Inl e \<Rightarrow> Inl e
         | Inr b \<Rightarrow> Inr (num_merges, num_files_to_merge, trunc b))
      else Inr (num_merges, num_files_to_merge, buffer_size))"

text \<open>
  The unit without rounding, and the plan that it gives: the numbers that the
  formulas of the class docstring denote, \<open>K = \<lceil>1 / log\<^bsub>N\<^esub> (M/B - 1)\<rceil>\<close> and
  \<open>X = \<lceil>N\<^bsup>1/K\<^esup>\<rceil>\<close>. The machine returns the same plan unless the argument of one of
  the two ceilings or of the truncation is an integer up to rounding, as
  \<open>7776\<^bsup>1/5\<^esup> = 6\<close> is: there the machine may be off by one (\<^verbatim>\<open>7776 ** 0.2\<close> is
  \<^verbatim>\<open>6.000000000000001\<close>, and its ceiling is 7). \<open>get_pass_params\<close> is used below only to
  evaluate the plan at inputs where every such argument is far from an integer.
\<close>

definition exact :: fpu where
  "exact = \<lparr>fp_truediv = (\<lambda>a b. real_of_int a / real_of_int b), fp_sub = (\<lambda>x y. x - y),
            fp_log = ln, fp_div = (\<lambda>x y. x / y), fp_pow = (\<lambda>x y. x powr y)\<rparr>"

definition get_pass_params :: "int \<Rightarrow> int \<Rightarrow> nat \<Rightarrow> bool \<Rightarrow> error + (int \<times> int \<times> int)" where
  "get_pass_params = get_pass_params_fp exact"

text \<open>
  One pass over \<open>n\<close> files in groups of \<open>x\<close> leaves one file for each group
  (\<^verbatim>\<open>range(0, n, x)\<close> has that many elements).
\<close>

definition files_after_pass :: "nat \<Rightarrow> nat \<Rightarrow> nat" where
  "files_after_pass x n = (n + x - 1) div x"


subsection \<open>The workspace directory and the destination\<close>

text \<open>
  Temporary files are named \<^verbatim>\<open>split_{i}.txt\<close> and \<^verbatim>\<open>merge_{p}_{i}.txt\<close>; a name is
  modelled by the numbers that the format string receives (\<^verbatim>\<open>pass_index\<close> is
  \<^verbatim>\<open>None\<close> when the argument is omitted). The workspace directory is an association
  list from names to contents, or absent. The order in which \<^verbatim>\<open>iterdir()\<close> yields the
  entries is chosen by the operating system: it is a parameter \<open>ord\<close> of the model, a
  function from the names in the directory to the listing. The file at \<^verbatim>\<open>save_path\<close>
  is kept apart: it is assumed to lie outside the workspace directory. The counter
  \<open>merge_calls\<close> is not a field of the program: it counts the calls of
  \<^verbatim>\<open>_merge_files\<close>.
\<close>

datatype name = Split nat | Merge "nat option" nat

datatype mode = SplitMode | MergeMode

type_synonym dir = "(name \<times> pystr) list"

record world =
  tmp :: "dir option"
  dest :: "pystr option"
  merge_calls :: nat

record ems =
  memory_limit :: int
  buffer_size :: int
  update_buffer_size :: bool

text \<open>
  The constructor: a missing or zero argument is replaced by the default
  (\<^verbatim>\<open>psutil.virtual_memory().available\<close> and \<^verbatim>\<open>io.DEFAULT_BUFFER_SIZE\<close>, two parameters
  here).
\<close>

definition init :: "int \<Rightarrow> int \<Rightarrow> int option \<Rightarrow> int option \<Rightarrow> bool \<Rightarrow> ems" where
  "init available default_buffer_size memory_limit' buffer_size' update_buffer_size' =
     \<lparr>memory_limit = (case memory_limit' of None \<Rightarrow> available
                       | Some m \<Rightarrow> if m = 0 then available else m),
      buffer_size = (case buffer_size' of None \<Rightarrow> default_buffer_size
                      | Some b \<Rightarrow> if b = 0 then default_buffer_size else b),
      update_buffer_size = update_buffer_size'\<rparr>"

definition make_temp_dir :: "world \<Rightarrow> world" where
  "make_temp_dir w = (case tmp w of None \<Rightarrow> w\<lparr>tmp := Some []\<rparr> | Some d \<Rightarrow> w)"

fun make_tempfile_path :: "mode \<Rightarrow> nat \<Rightarrow> nat option \<Rightarrow> name" where
  "make_tempfile_path SplitMode file_index pass_index = Split file_index"
| "make_tempfile_path MergeMode file_index pass_index = Merge pass_index file_index"

subsection \<open>\<^verbatim>\<open>_split\<close>\<close>

lemma read_block_append: "read_block hint len ls = (b, r) \<Longrightarrow> b @ r = ls"
proof (induction ls arbitrary: len b r)
  case Nil
  then show ?case by simp
next
  case (Cons l ls)
  then show ?case by (auto split: if_splits prod.splits)
qed

lemma readlines_shorter:
  assumes "(block_lines, rest) = readlines hint stream" and "block_lines \<noteq> []"
  shows "length rest < length stream"
proof -
  have "block_lines @ rest = stream"
    using assms(1) read_block_append [of hint 0 stream block_lines rest]
    by (auto simp: readlines_def split: if_splits)
  with assms(2) show ?thesis by (cases block_lines) auto
qed

function split_loop :: "int \<Rightarrow> nat \<Rightarrow> pystr list \<Rightarrow> dir \<Rightarrow> error + (dir \<times> nat)" where
  "split_loop limit block_index stream d =
     (case readlines limit stream of (block_lines, rest) \<Rightarrow>
        if block_lines = [] then Inr (d, block_index)
        else (case pop_all (length block_lines) (heapify block_lines) of
                Inl e \<Rightarrow> Inl e
              | Inr written \<Rightarrow>
                  split_loop limit (block_index + 1) rest
                    (AList.update (make_tempfile_path SplitMode block_index None)
                       (concat written) d)))"
  by pat_completeness auto

termination
  by (relation "measure (\<lambda>(limit, block_index, stream, d). length stream)")
     (auto dest: readlines_shorter)

declare split_loop.simps [simp del]

text \<open>The result is the workspace and \<^verbatim>\<open>self.num_split_files\<close>.\<close>

definition split_ems :: "ems \<Rightarrow> pystr \<Rightarrow> world \<Rightarrow> error + (world \<times> nat)" where
  "split_ems self inp w =
     (case tmp w of
        None \<Rightarrow> (if file_lines inp = [] then Inr (w, 0) else Inl FileNotFoundError)
      | Some d \<Rightarrow>
          (case split_loop (memory_limit self) 0 (file_lines inp) d of
             Inl e \<Rightarrow> Inl e
           | Inr (d', n) \<Rightarrow> Inr (w\<lparr>tmp := Some d'\<rparr>, n)))"

subsection \<open>\<^verbatim>\<open>_merge_files\<close>\<close>

text \<open>
  \<^verbatim>\<open>open(file, buffering=self.buffer_size)\<close> raises \<^verbatim>\<open>FileNotFoundError\<close> for a missing
  file and \<^verbatim>\<open>ValueError\<close> for a text file with \<^verbatim>\<open>buffering=0\<close>. Opening the output for
  writing creates or truncates it; the lines are read after that.
\<close>

fun open_files :: "int \<Rightarrow> name list \<Rightarrow> dir \<Rightarrow> error + unit" where
  "open_files b [] d = Inr ()"
| "open_files b (f # fs) d =
     (if map_of d f = None then Inl FileNotFoundError
      else if b = 0 then Inl ValueError
      else open_files b fs d)"

fun remove_files :: "name list \<Rightarrow> dir \<Rightarrow> error + dir" where
  "remove_files [] d = Inr d"
| "remove_files (f # fs) d =
     (if map_of d f = None then Inl FileNotFoundError
      else remove_files fs (AList.delete f d))"

definition merge_files :: "int \<Rightarrow> name list \<Rightarrow> name \<Rightarrow> dir \<Rightarrow> error + dir" where
  "merge_files b files save_path d =
     (case open_files b files d of
        Inl e \<Rightarrow> Inl e
      | Inr u \<Rightarrow>
          if b = 0 then Inl ValueError
          else
            (let d1 = AList.update save_path [] d;
                 opened_files = map (\<lambda>f. file_lines (the (map_of d1 f))) files;
                 d2 = AList.update save_path (concat (heapq_merge opened_files)) d1
             in remove_files files d2))"

subsection \<open>\<^verbatim>\<open>_move_to_save_path\<close>\<close>

text \<open>
  \<^verbatim>\<open>os.rename\<close> needs the file; \<^verbatim>\<open>os.removedirs\<close> raises \<^verbatim>\<open>OSError\<close> when the directory
  is not empty.
\<close>

definition move_to_save_path :: "name \<Rightarrow> world \<Rightarrow> error + world" where
  "move_to_save_path temp_path w =
     (case tmp w of
        None \<Rightarrow> Inl FileNotFoundError
      | Some d \<Rightarrow>
          (case map_of d temp_path of
             None \<Rightarrow> Inl FileNotFoundError
           | Some c \<Rightarrow>
               if AList.delete temp_path d = [] then Inr (w\<lparr>tmp := None, dest := Some c\<rparr>)
               else Inl OSError))"

subsection \<open>\<^verbatim>\<open>_merge\<close>\<close>

text \<open>
  The inner loop runs over \<^verbatim>\<open>range(0, num_split_files, num_files_to_merge)\<close>; the state
  is the directory, \<^verbatim>\<open>save_path_tmp\<close> (unbound before the first iteration) and the
  counter of merges. In \<^verbatim>\<open>int(np.ceil(start_index / num_files_to_merge))\<close> the dividend is
  a multiple of the divisor; Python's division of two integers is correctly rounded, so
  it returns the integer quotient itself as long as that is below \<open>2\<^sup>5\<^sup>3\<close>, and the
  division is computed exactly here. The plan comes from \<^verbatim>\<open>_get_pass_params\<close> on the
  floating-point unit \<open>fp\<close>.
\<close>

definition py_range :: "nat \<Rightarrow> int \<Rightarrow> error + nat list" where
  "py_range n step =
     (if step = 0 then Inl ValueError
      else if step < 0 then Inr []
      else Inr (map (\<lambda>i. i * nat step) [0 ..< (n + nat step - 1) div nat step]))"

fun merge_groups ::
  "int \<Rightarrow> int \<Rightarrow> nat \<Rightarrow> name list \<Rightarrow> nat list \<Rightarrow> dir \<times> name option \<times> nat
     \<Rightarrow> error + (dir \<times> name option \<times> nat)" where
  "merge_groups b num_files_to_merge merge_index temp_files [] st = Inr st"
| "merge_groups b num_files_to_merge merge_index temp_files (start_index # starts) (d, sp, c) =
     (let files_to_merge = take (nat num_files_to_merge) (drop start_index temp_files);
          file_index = nat \<lceil>real start_index / real_of_int num_files_to_merge\<rceil>;
          save_path_tmp = make_tempfile_path MergeMode file_index (Some merge_index)
      in case merge_files b files_to_merge save_path_tmp d of
           Inl e \<Rightarrow> Inl e
         | Inr d' \<Rightarrow>
             merge_groups b num_files_to_merge merge_index temp_files starts
               (d', Some save_path_tmp, Suc c))"

fun merge_passes ::
  "(name list \<Rightarrow> name list) \<Rightarrow> int \<Rightarrow> int \<Rightarrow> nat \<Rightarrow> nat \<Rightarrow> dir \<times> name option \<times> nat
     \<Rightarrow> error + (dir \<times> name option \<times> nat)" where
  "merge_passes ord b num_files_to_merge 0 merge_index st = Inr st"
| "merge_passes ord b num_files_to_merge (Suc k) merge_index (d, sp, c) =
     (let temp_files = ord (map fst d) in
      case py_range (length temp_files) num_files_to_merge of
        Inl e \<Rightarrow> Inl e
      | Inr starts \<Rightarrow>
          (case merge_groups b num_files_to_merge merge_index temp_files starts (d, sp, c) of
             Inl e \<Rightarrow> Inl e
           | Inr st \<Rightarrow> merge_passes ord b num_files_to_merge k (Suc merge_index) st))"

definition merge_ems ::
  "fpu \<Rightarrow> ems \<Rightarrow> (name list \<Rightarrow> name list) \<Rightarrow> nat \<Rightarrow> world \<Rightarrow> error + world" where
  "merge_ems fp self ord num_split_files w =
     (if num_split_files = 1 then move_to_save_path (Split 0) w
      else
        case get_pass_params_fp fp (memory_limit self) (buffer_size self) num_split_files
               (update_buffer_size self) of
          Inl e \<Rightarrow> Inl e
        | Inr (num_merges, num_files_to_merge, buffer_size') \<Rightarrow>
            (case tmp w of
               None \<Rightarrow> (if 0 < num_merges then Inl FileNotFoundError else Inl UnboundLocalError)
             | Some d \<Rightarrow>
                 (case merge_passes ord buffer_size' num_files_to_merge (nat num_merges) 0
                         (d, None, merge_calls w) of
                    Inl e \<Rightarrow> Inl e
                  | Inr (d', save_path_tmp, c) \<Rightarrow>
                      (case save_path_tmp of
                         None \<Rightarrow> Inl UnboundLocalError
                       | Some p \<Rightarrow> move_to_save_path p (w\<lparr>tmp := Some d', merge_calls := c\<rparr>)))))"

subsection \<open>\<^verbatim>\<open>sort\<close>\<close>

definition sort_ems ::
  "fpu \<Rightarrow> ems \<Rightarrow> (name list \<Rightarrow> name list) \<Rightarrow> pystr \<Rightarrow> world \<Rightarrow> error + world" where
  "sort_ems fp self ord inp w =
     (case split_ems self inp (make_temp_dir w) of
        Inl e \<Rightarrow> Inl e
      | Inr (w', num_split_files) \<Rightarrow> merge_ems fp self ord num_split_files w')"

subsection \<open>Predicates on the workspace\<close>


definition dir_lines :: "dir \<Rightarrow> pystr multiset" where
  "dir_lines d = (\<Sum>e\<leftarrow>d. mset (file_lines (snd e)))"


definition fresh :: "world \<Rightarrow> bool" where
  "fresh w \<longleftrightarrow> tmp w = None \<or> tmp w = Some []"




section \<open>Properties of the library model\<close>

subsection \<open>Blocks returned by \<^verbatim>\<open>readlines\<close>\<close>

lemma read_block_props:
  "read_block hint len ls = (b, r) \<Longrightarrow> len \<le> hint \<Longrightarrow>
     b @ r = ls \<and> len + total_size (butlast b) \<le> hint
     \<and> (r \<noteq> [] \<longrightarrow> hint < len + total_size b) \<and> (ls \<noteq> [] \<longrightarrow> b \<noteq> [])"
proof (induction ls arbitrary: len b r)
  case Nil
  then show ?case by (simp add: total_size_def)
next
  case (Cons l ls)
  show ?case
  proof (cases "int (length l) > hint - len")
    case True
    with Cons.prems show ?thesis by (auto simp: total_size_def)
  next
    case False
    obtain b' r' where br: "read_block hint (len + int (length l)) ls = (b', r')"
      by (cases "read_block hint (len + int (length l)) ls")
    from False have "len + int (length l) \<le> hint" by simp
    from Cons.IH [OF br this] False Cons.prems br show ?thesis
      by (auto simp: total_size_def)
  qed
qed

subsection \<open>\<^verbatim>\<open>heapq.merge\<close> and the heap sort of a block\<close>

lemma entry_less_trans: "entry_less a b \<Longrightarrow> entry_less b c \<Longrightarrow> entry_less a c"
  by (auto simp: entry_less_def)

lemma heap_top_not_above: "\<not> entry_less e (heap_top e h)"
proof (induction h arbitrary: e)
  case Nil
  show ?case by (simp add: entry_less_def)
next
  case (Cons g h)
  show ?case
  proof (cases "entry_less g e")
    case True
    have "\<not> entry_less g (heap_top g h)" by (rule Cons.IH)
    moreover have "entry_less e (heap_top g h) \<Longrightarrow> entry_less g (heap_top g h)"
      using True by (rule entry_less_trans)
    ultimately show ?thesis using True by auto
  next
    case False
    then show ?thesis using Cons.IH [of e] by simp
  qed
qed

lemma heap_top_least: "f \<in> set (e # h) \<Longrightarrow> \<not> entry_less f (heap_top e h)"
proof (induction h arbitrary: e)
  case Nil
  then show ?case by (auto simp: entry_less_def)
next
  case (Cons g h)
  let ?m = "if entry_less g e then g else e"
  from Cons.prems consider "f = e" | "f = g" | "f \<in> set h" by auto
  then show ?case
  proof cases
    case 1
    then show ?thesis using heap_top_not_above [of e "g # h"] by simp
  next
    case 2
    show ?thesis
    proof (cases "entry_less g e")
      case True
      then show ?thesis using 2 heap_top_not_above [of g h] by simp
    next
      case False
      have "\<not> entry_less e (heap_top e h)" by (rule heap_top_not_above)
      moreover have "entry_less g (heap_top e h) \<Longrightarrow> \<not> entry_less e (heap_top e h) \<Longrightarrow> entry_less g e"
        by (auto simp: entry_less_def)
      ultimately show ?thesis using False 2 by auto
    qed
  next
    case 3
    then have "f \<in> set (?m # h)" by simp
    from Cons.IH [OF this] show ?thesis by simp
  qed
qed

lemma merge_loop_first:
  "merge_loop h = (v, i) # out \<Longrightarrow> (w, j, r) \<in> set h \<Longrightarrow> v < w \<or> (v = w \<and> i \<le> j)"
proof (cases h rule: merge_loop.cases)
  case 1
  assume "merge_loop h = (v, i) # out" with 1 show ?thesis by simp
next
  case (2 v' i' rest)
  assume "merge_loop h = (v, i) # out" "(w, j, r) \<in> set h"
  with 2 show ?thesis by simp
next
  case (3 e f h')
  assume a: "merge_loop h = (v, i) # out" "(w, j, r) \<in> set h"
  obtain v' i' rest where t: "heap_top e (f # h') = (v', i', rest)"
    by (cases "heap_top e (f # h')")
  with a 3 have "v' = v" "i' = i" by auto
  from heap_top_least [of "(w, j, r)" e "f # h'"] a 3 t
  have "\<not> entry_less (w, j, r) (v', i', rest)" by simp
  then show ?thesis using \<open>v' = v\<close> \<open>i' = i\<close> by (auto simp: entry_less_def)
qed

lemma merge_loop_pop:
  "heap_top e (f # h) = (v, i, []) \<Longrightarrow>
   merge_loop (e # f # h) = (v, i) # merge_loop (remove1 (v, i, []) (e # f # h))"
  by (simp del: heap_top.simps remove1.simps)

lemma merge_loop_replace:
  "heap_top e (f # h) = (v, i, x # rest') \<Longrightarrow>
   merge_loop (e # f # h) =
     (v, i) # merge_loop ((x, i, rest') # remove1 (v, i, x # rest') (e # f # h))"
  by (simp del: heap_top.simps remove1.simps)


lemma set_merge_loop: "set (merge_loop h) \<subseteq> (\<Union>e\<in>set h. entry_tagged e)"
proof (induction h rule: merge_loop.induct)
  case 1
  show ?case by simp
next
  case (2 v i rest)
  show ?case by (auto simp: entry_tagged_def entry_stream_def)
next
  case (3 e f h)
  obtain v i rest where t: "heap_top e (f # h) = (v, i, rest)"
    by (cases "heap_top e (f # h)")
  then have mem: "(v, i, rest) \<in> set (e # f # h)"
    using heap_top_in [of e "f # h"] by simp
  have sub: "(\<Union>e\<in>set (remove1 (v, i, rest) (e # f # h)). entry_tagged e)
             \<subseteq> (\<Union>e\<in>set (e # f # h). entry_tagged e)"
    using set_remove1_subset [of "(v, i, rest)" "e # f # h"] by blast
  have top: "entry_tagged (v, i, rest) \<subseteq> (\<Union>e\<in>set (e # f # h). entry_tagged e)"
    using mem by blast
  have vi: "(v, i) \<in> entry_tagged (v, i, rest)"
    by (simp add: entry_tagged_def entry_stream_def)
  show ?case
  proof (cases rest)
    case Nil
    note "3.IH"(1) [OF t [symmetric] refl Nil]
    with sub have "set (merge_loop (remove1 (v, i, rest) (e # f # h)))
          \<subseteq> (\<Union>e\<in>set (e # f # h). entry_tagged e)" by (rule order_trans [rotated])
    moreover have "merge_loop (e # f # h) = (v, i) # merge_loop (remove1 (v, i, rest) (e # f # h))"
      using t Nil merge_loop_pop by blast
    ultimately show ?thesis using top vi by (auto simp del: merge_loop.simps remove1.simps)
  next
    case (Cons x rest')
    note ih = "3.IH"(2) [OF t [symmetric] refl Cons]
    have "entry_tagged (x, i, rest') \<subseteq> entry_tagged (v, i, rest)"
      using Cons by (auto simp: entry_tagged_def entry_stream_def)
    with top have "entry_tagged (x, i, rest') \<subseteq> (\<Union>e\<in>set (e # f # h). entry_tagged e)"
      by (rule order_trans [rotated])
    with sub have "(\<Union>e\<in>set ((x, i, rest') # remove1 (v, i, rest) (e # f # h)). entry_tagged e)
          \<subseteq> (\<Union>e\<in>set (e # f # h). entry_tagged e)"
      by (simp del: remove1.simps)
    with ih have "set (merge_loop ((x, i, rest') # remove1 (v, i, rest) (e # f # h)))
          \<subseteq> (\<Union>e\<in>set (e # f # h). entry_tagged e)" by (rule order_trans)
    moreover have "merge_loop (e # f # h) =
        (v, i) # merge_loop ((x, i, rest') # remove1 (v, i, rest) (e # f # h))"
      using t Cons merge_loop_replace by blast
    ultimately show ?thesis using top vi by (auto simp del: merge_loop.simps remove1.simps)
  qed
qed

lemma tag_le_entry:
  assumes "\<not> entry_less e (v, i, rest)" and "sorted (entry_stream e)" and "y \<in> entry_tagged e"
  shows "tag_le (v, i) y"
proof -
  obtain w j r where e: "e = (w, j, r)" by (cases e)
  from assms(3) e obtain z where y: "y = (z, j)" and z: "z \<in> set (w # r)"
    by (auto simp: entry_tagged_def entry_stream_def)
  from assms(2) e z have "w \<le> z" by (auto simp: entry_stream_def)
  moreover from assms(1) e have "v < w \<or> (v = w \<and> i \<le> j)"
    by (auto simp: entry_less_def)
  ultimately show ?thesis using y by (auto simp: tag_le_def)
qed

lemma tag_le_same_entry:
  assumes "sorted (v # rest)" and "y \<in> entry_tagged (v, i, rest)"
  shows "tag_le (v, i) y"
  using assms by (auto simp: entry_tagged_def entry_stream_def tag_le_def)

lemma sorted_merge_loop:
  "\<forall>e\<in>set h. sorted (entry_stream e) \<Longrightarrow> sorted_wrt tag_le (merge_loop h)"
proof (induction h rule: merge_loop.induct)
  case 1
  show ?case by simp
next
  case (2 v i rest)
  then have s: "sorted (v # rest)" by (simp add: entry_stream_def)
  then have "sorted_wrt (\<lambda>x y. tag_le (x, i) (y, i)) rest"
    by (auto simp: tag_le_def intro: sorted_wrt_mono_rel [of rest "(\<le>)"])
  with s show ?case by (auto simp: sorted_wrt_map tag_le_def)
next
  case (3 e f h)
  obtain v i rest where t: "heap_top e (f # h) = (v, i, rest)"
    by (cases "heap_top e (f # h)")
  then have mem: "(v, i, rest) \<in> set (e # f # h)"
    using heap_top_in [of e "f # h"] by simp
  with "3.prems" have sv: "sorted (v # rest)" by (force simp: entry_stream_def)
  have least: "\<And>g. g \<in> set (e # f # h) \<Longrightarrow> \<not> entry_less g (v, i, rest)"
    using heap_top_least [of _ e "f # h"] t by simp
  have old: "\<And>g y. g \<in> set (remove1 (v, i, rest) (e # f # h)) \<Longrightarrow> y \<in> entry_tagged g
             \<Longrightarrow> tag_le (v, i) y"
  proof -
    fix g y assume g: "g \<in> set (remove1 (v, i, rest) (e # f # h))" and y: "y \<in> entry_tagged g"
    from g have g': "g \<in> set (e # f # h)"
      using set_remove1_subset [of "(v, i, rest)" "e # f # h"] by blast
    from tag_le_entry [OF least [OF g'] _ y] "3.prems" g' show "tag_le (v, i) y" by blast
  qed
  have inv: "\<forall>g\<in>set (remove1 (v, i, rest) (e # f # h)). sorted (entry_stream g)"
    using "3.prems" set_remove1_subset [of "(v, i, rest)" "e # f # h"] by blast
  show ?case
  proof (cases rest)
    case Nil
    let ?H = "remove1 (v, i, rest) (e # f # h)"
    have s: "sorted_wrt tag_le (merge_loop ?H)"
      using "3.IH"(1) [OF t [symmetric] refl Nil] inv by blast
    have "\<forall>y\<in>set (merge_loop ?H). tag_le (v, i) y"
      using set_merge_loop [of ?H] old by blast
    moreover have "merge_loop (e # f # h) = (v, i) # merge_loop ?H"
      using t Nil merge_loop_pop by blast
    ultimately show ?thesis using s by (simp del: merge_loop.simps remove1.simps)
  next
    case (Cons x rest')
    let ?H = "(x, i, rest') # remove1 (v, i, rest) (e # f # h)"
    from sv Cons have sx: "sorted (entry_stream (x, i, rest'))"
      by (simp add: entry_stream_def)
    have "\<forall>g\<in>set ?H. sorted (entry_stream g)"
      using inv sx by (simp del: remove1.simps)
    then have s: "sorted_wrt tag_le (merge_loop ?H)"
      using "3.IH"(2) [OF t [symmetric] refl Cons] by blast
    have new: "\<And>y. y \<in> entry_tagged (x, i, rest') \<Longrightarrow> tag_le (v, i) y"
    proof -
      fix y assume "y \<in> entry_tagged (x, i, rest')"
      then have "y \<in> entry_tagged (v, i, rest)"
        using Cons by (auto simp: entry_tagged_def entry_stream_def)
      with sv show "tag_le (v, i) y" by (rule tag_le_same_entry)
    qed
    have "\<forall>y\<in>set (merge_loop ?H). tag_le (v, i) y"
    proof
      fix y assume "y \<in> set (merge_loop ?H)"
      with set_merge_loop [of ?H] obtain g where "g \<in> set ?H" "y \<in> entry_tagged g" by blast
      then have "(g = (x, i, rest') \<or> g \<in> set (remove1 (v, i, rest) (e # f # h)))"
        and "y \<in> entry_tagged g" by (simp_all del: remove1.simps)
      then show "tag_le (v, i) y" using old new by blast
    qed
    moreover have "merge_loop (e # f # h) = (v, i) # merge_loop ?H"
      using t Cons merge_loop_replace by blast
    ultimately show ?thesis using s by (simp del: merge_loop.simps remove1.simps)
  qed
qed


lemma initial_entries_streams:
  "e \<in> set (initial_entries i xss) \<Longrightarrow> entry_stream e \<in> set xss"
  by (induction i xss rule: initial_entries.induct) (auto simp: entry_stream_def)

lemma initial_entries_nth:
  "j < length xss \<Longrightarrow> xss ! j = x # xs \<Longrightarrow> (x, i + j, xs) \<in> set (initial_entries i xss)"
proof (induction i xss arbitrary: j rule: initial_entries.induct)
  case (1 i)
  then show ?case by simp
next
  case (2 i xss)
  then show ?case by (cases j) auto
next
  case (3 i y ys xss)
  then show ?case by (cases j) auto
qed


lemma sorted_heapq_merge_tagged:
  assumes "\<forall>xs\<in>set xss. sorted xs"
  shows "sorted_wrt tag_le (heapq_merge_tagged xss)"
  unfolding heapq_merge_tagged_def
  using assms initial_entries_streams by (intro sorted_merge_loop) blast


lemma pop_all_sorts:
  "length h = n \<Longrightarrow> \<exists>xs. pop_all n h = Inr xs \<and> mset xs = mset h \<and> sorted xs"
proof (induction n arbitrary: h)
  case 0
  then show ?case by simp
next
  case (Suc n)
  then have ne: "h \<noteq> []" by auto
  let ?m = "Min (set h)"
  have m: "?m \<in> set h" using ne by simp
  have len: "length (remove1 ?m h) = n" using Suc.prems m by (simp add: length_remove1)
  from Suc.IH [OF len] obtain xs where
    xs: "pop_all n (remove1 ?m h) = Inr xs" "mset xs = mset (remove1 ?m h)" "sorted xs" by blast
  have "\<forall>y\<in>set xs. ?m \<le> y"
  proof
    fix y assume "y \<in> set xs"
    then have "y \<in># mset xs" by simp
    with xs(2) have "y \<in> set h" by (metis in_diff_count mset_remove1 set_mset_mset count_greater_zero_iff in_multiset_in_set notin_set_remove1)
    then show "?m \<le> y" by simp
  qed
  moreover have "mset (?m # xs) = mset h" using xs(2) m by simp
  moreover have "pop_all (Suc n) h = Inr (?m # xs)" using ne xs(1) by (simp add: heappop_def)
  ultimately show ?case using xs(3) by auto
qed

section \<open>Properties of the pass plan\<close>

lemma trunc_of_int [simp]: "trunc (of_int k) = k"
  by (simp add: trunc_def)

lemma num_merges_props:
  assumes a: "1 < a" and n: "2 \<le> N"
  defines "k \<equiv> \<lceil>1 / (ln a / ln (real N))\<rceil>"
  shows "1 \<le> k" and "real N \<le> a ^ nat k"
proof -
  have la: "0 < ln a" using a by simp
  have ln: "0 < ln (real N)" using n by simp
  have x: "1 / (ln a / ln (real N)) = ln (real N) / ln a" by simp
  have "0 < ln (real N) / ln a" using la ln by simp
  then have "0 < k" unfolding k_def x by simp
  then show k1: "1 \<le> k" by simp
  have "ln (real N) / ln a \<le> of_int k" unfolding k_def x by (rule le_of_int_ceiling)
  then have "ln (real N) \<le> of_int k * ln a" using la by (simp add: pos_divide_le_eq)
  also have "of_int k = real (nat k)" using k1 by simp
  also have "real (nat k) * ln a = ln (a ^ nat k)" using a by (simp add: ln_realpow)
  finally show "real N \<le> a ^ nat k" using a n by (simp add: ln_le_cancel_iff)
qed

lemma fan_in_props:
  assumes k: "1 \<le> k" and n: "2 \<le> N"
  defines "x \<equiv> \<lceil>real N powr (1 / of_int k)\<rceil>"
  shows "2 \<le> x" and "N \<le> nat x ^ nat k" and "real N \<le> a ^ nat k \<Longrightarrow> 1 < a \<Longrightarrow> x \<le> \<lceil>a\<rceil>"
proof -
  let ?r = "real N powr (1 / of_int k)"
  have kpos: "0 < nat k" using k by simp
  have rk: "?r ^ nat k = real N"
  proof -
    have "?r ^ nat k = ?r powr real (nat k)" using n by (simp add: powr_realpow)
    also have "\<dots> = real N powr ((1 / of_int k) * real (nat k))" by (simp add: powr_powr)
    also have "(1 / of_int k) * real (nat k) = (1::real)" using k by simp
    finally show ?thesis using n by simp
  qed
  have "1 < ?r"
  proof (rule ccontr)
    assume "\<not> 1 < ?r"
    then have "?r ^ nat k \<le> 1" by (intro power_le_one) simp_all
    with rk n show False by simp
  qed
  then have "1 < x" unfolding x_def by (simp add: less_ceiling_iff)
  then show x2: "2 \<le> x" by simp
  have "?r \<le> of_int x" unfolding x_def by (rule le_of_int_ceiling)
  then have "?r ^ nat k \<le> (of_int x) ^ nat k" by (intro power_mono) simp_all
  with rk have "real N \<le> (of_int x :: real) ^ nat k" by simp
  also have "(of_int x :: real) = real (nat x)" using x2 by simp
  finally have "real N \<le> real (nat x ^ nat k)" by simp
  then show "N \<le> nat x ^ nat k" by (simp only: of_nat_le_iff)
  assume b: "real N \<le> a ^ nat k" and a: "1 < a"
  have "?r \<le> a"
  proof (rule ccontr)
    assume "\<not> ?r \<le> a"
    then have "a < ?r" by simp
    then have "a ^ nat k < ?r ^ nat k" using a kpos by (intro power_strict_mono) simp_all
    with rk b show False by simp
  qed
  then show "x \<le> \<lceil>a\<rceil>" unfolding x_def by (rule ceiling_mono)
qed

lemma exact_sel [simp]:
  "fp_truediv exact a b = real_of_int a / real_of_int b"
  "fp_sub exact x y = x - y"
  "fp_log exact x = ln x"
  "fp_div exact x y = x / y"
  "fp_pow exact x y = x powr y"
  by (simp_all add: exact_def)

lemma np_log_pos: "0 < x \<Longrightarrow> np_log exact x = Fin (ln x)"
  by (simp add: np_log_def)

lemma get_pass_params_unfold:
  assumes n: "2 \<le> N" and q: "2 < real_of_int M / real_of_int B"
  defines "K \<equiv> \<lceil>1 / (ln (real_of_int M / real_of_int B - 1) / ln (real N))\<rceil>"
  defines "X \<equiv> \<lceil>real N powr (1 / of_int K)\<rceil>"
  shows "get_pass_params M B N upd =
           Inr (K, X, if upd then trunc (of_int M / of_int (X + 1)) else B)"
    and "1 \<le> K" and "2 \<le> X" and "N \<le> nat X ^ nat K"
    and "X \<le> \<lceil>real_of_int M / real_of_int B - 1\<rceil>"
proof -
  let ?a = "real_of_int M / real_of_int B - 1"
  have B: "B \<noteq> 0" using q by auto
  have a: "1 < ?a" using q by simp
  have la: "ln ?a \<noteq> 0" "0 < ln ?a" using a by simp_all
  have ln: "ln (real N) \<noteq> 0" "0 < ln (real N)" using n by simp_all
  from num_merges_props(1) [OF a n] show K: "1 \<le> K"
    unfolding K_def by simp
  from num_merges_props(2) [OF a n] have NK: "real N \<le> ?a ^ nat K"
    unfolding K_def by simp
  from fan_in_props(1) [OF K n] show X: "2 \<le> X"
    unfolding X_def by simp
  from fan_in_props(2) [OF K n] show "N \<le> nat X ^ nat K"
    unfolding X_def by simp
  from fan_in_props(3) [OF K n NK a] show "X \<le> \<lceil>?a\<rceil>" unfolding X_def by simp
  have 1: "py_truediv exact M B = Inr (real_of_int M / real_of_int B)"
    using B by (simp add: py_truediv_def)
  have "0 < ?a" using a by linarith
  then have "np_log exact ?a = Fin (ln ?a)" by (rule np_log_pos)
  moreover have "np_log exact (real N) = Fin (ln (real N))" using n by (intro np_log_pos) simp
  ultimately have 2: "np_div exact (np_log exact (fp_sub exact (real_of_int M / real_of_int B) 1))
                        (np_log exact (real N)) = Fin (ln ?a / ln (real N))"
    using ln(1) by (simp del: ln_eq_zero_iff)
  have 3: "py_int (np_ceil (np_div exact (Fin 1) (Fin (ln ?a / ln (real N))))) = Inr K"
    using la ln by (simp add: K_def)
  have 4: "py_truediv exact 1 K = Inr (1 / of_int K)" using K by (simp add: py_truediv_def)
  have 5: "py_pow exact N (1 / of_int K) = Inr (real N powr (1 / of_int K))"
    using n by (simp add: py_pow_def)
  have 6: "py_int (np_ceil (Fin (real N powr (1 / of_int K)))) = Inr X"
    by (simp add: X_def)
  have 7: "py_truediv exact M (X + 1) = Inr (of_int M / of_int (X + 1))"
    using X by (simp add: py_truediv_def)
  show "get_pass_params M B N upd =
           Inr (K, X, if upd then trunc (of_int M / of_int (X + 1)) else B)"
    unfolding get_pass_params_def get_pass_params_fp_def
    by (simp only: 1 2 3 4 5 6 7 sum.case if_distrib) simp
qed

lemma root_power:
  assumes "1 \<le> k" and "1 \<le> N"
  shows "(real N powr (1 / of_int k)) ^ nat k = real N"
proof -
  let ?r = "real N powr (1 / of_int k)"
  have "0 < ?r" using assms(2) by simp
  then have "?r ^ nat k = ?r powr real (nat k)" by (simp only: powr_realpow)
  also have "\<dots> = real N powr ((1 / of_int k) * real (nat k))" by (simp add: powr_powr)
  also have "(1 / of_int k) * real (nat k) = (1::real)" using assms by simp
  finally show ?thesis using assms by simp
qed

lemma num_merges_value:
  assumes a: "1 < a" and n: "2 \<le> N" and lo: "a ^ k < real N" and hi: "real N \<le> a ^ Suc k"
  shows "\<lceil>1 / (ln a / ln (real N))\<rceil> = int (Suc k)"
proof -
  have la: "0 < ln a" using a by simp
  have x: "1 / (ln a / ln (real N)) = ln (real N) / ln a" by simp
  have "ln (a ^ k) < ln (real N)" using lo a n by (subst ln_less_cancel_iff) simp_all
  then have "real k * ln a < ln (real N)" using a by (simp add: ln_realpow)
  then have 1: "real k < ln (real N) / ln a" using la by (simp add: pos_less_divide_eq)
  have "ln (real N) \<le> ln (a ^ Suc k)" using hi a n by (subst ln_le_cancel_iff) simp_all
  then have "ln (real N) \<le> real (Suc k) * ln a" using a by (simp only: ln_realpow)
  then have 2: "ln (real N) / ln a \<le> real (Suc k)" using la by (simp add: pos_divide_le_eq)
  show ?thesis unfolding x
  proof (rule ceiling_unique)
    show "of_int (int (Suc k)) - 1 < ln (real N) / ln a" using 1 by simp
    show "ln (real N) / ln a \<le> of_int (int (Suc k))" using 2 by simp
  qed
qed

lemma fan_in_value:
  assumes k: "1 \<le> K" and n: "1 \<le> N" and lo: "x ^ nat K < N" and hi: "N \<le> Suc x ^ nat K"
  shows "\<lceil>real N powr (1 / of_int K)\<rceil> = int (Suc x)"
proof -
  let ?r = "real N powr (1 / of_int K)"
  have rk: "?r ^ nat K = real N" using k n by (rule root_power)
  have kpos: "0 < nat K" using k by simp
  have 1: "real x < ?r"
  proof (rule ccontr)
    assume "\<not> real x < ?r"
    then have "?r ^ nat K \<le> real x ^ nat K" by (intro power_mono) simp_all
    with rk have "real N \<le> real (x ^ nat K)" by simp
    then have "N \<le> x ^ nat K" by (simp only: of_nat_le_iff)
    with lo show False by simp
  qed
  have 2: "?r \<le> real (Suc x)"
  proof (rule ccontr)
    assume "\<not> ?r \<le> real (Suc x)"
    then have "real (Suc x) < ?r" by simp
    then have "real (Suc x) ^ nat K < ?r ^ nat K" using kpos by (intro power_strict_mono) simp_all
    with rk have "real (Suc x ^ nat K) < real N" by simp
    then have "Suc x ^ nat K < N" by (simp only: of_nat_less_iff)
    with hi show False by simp
  qed
  show ?thesis
  proof (rule ceiling_unique)
    show "of_int (int (Suc x)) - 1 < ?r" using 1 by simp
    show "?r \<le> of_int (int (Suc x))" using 2 by simp
  qed
qed

lemma files_after_pass_bounds:
  assumes "1 \<le> x" and "1 \<le> n" and "n \<le> x * m"
  shows "1 \<le> files_after_pass x n" and "files_after_pass x n \<le> m"
proof -
  have "x \<le> n + x - 1" using assms by simp
  then have "x div x \<le> (n + x - 1) div x" by (rule div_le_mono)
  then show "1 \<le> files_after_pass x n" using assms by (simp add: files_after_pass_def)
  have "n + x - 1 < x * (m + 1)" using assms by simp
  then have "(n + x - 1) div x < m + 1" using assms by (simp add: div_less_iff_less_mult mult.commute)
  then show "files_after_pass x n \<le> m" by (simp add: files_after_pass_def)
qed

lemma passes_reduce_to_one:
  "1 \<le> x \<Longrightarrow> 1 \<le> n \<Longrightarrow> n \<le> x ^ k \<Longrightarrow> (files_after_pass x ^^ k) n = 1"
proof (induction k arbitrary: n)
  case 0
  then show ?case by simp
next
  case (Suc k)
  from Suc.prems have "n \<le> x * x ^ k" by simp
  from files_after_pass_bounds [OF Suc.prems(1,2) this]
  have "(files_after_pass x ^^ k) (files_after_pass x n) = 1"
    by (intro Suc.IH Suc.prems(1))
  then show ?case by (simp add: funpow_swap1)
qed

lemma trunc_div:
  assumes "0 \<le> M" and "0 < d"
  shows "trunc (real_of_int M / real_of_int d) = M div d"
proof -
  have "0 \<le> real_of_int M / real_of_int d" using assms by simp
  then show ?thesis by (simp add: trunc_def floor_divide_of_int_eq)
qed

lemma get_pass_params_tuned:
  assumes n: "2 \<le> N" and b: "1 \<le> B" and m: "2 * B < M"
  shows "\<exists>K X. get_pass_params M B N True = Inr (K, X, M div (X + 1))
           \<and> 1 \<le> K \<and> 2 \<le> X \<and> N \<le> nat X ^ nat K \<and> X + 1 \<le> M"
proof -
  have q: "2 < real_of_int M / real_of_int B"
  proof -
    have "real_of_int (2 * B) < real_of_int M" using m by (simp only: of_int_less_iff)
    then show ?thesis using b by (simp add: pos_less_divide_eq)
  qed
  let ?a = "real_of_int M / real_of_int B - 1"
  define K where "K = \<lceil>1 / (ln ?a / ln (real N))\<rceil>"
  define X where "X = \<lceil>real N powr (1 / of_int K)\<rceil>"
  note u1 = get_pass_params_unfold(1) [OF n q, of True, folded K_def X_def]
  note u = get_pass_params_unfold(2-5) [OF n q, folded K_def X_def]
  have le: "real_of_int M / real_of_int B \<le> real_of_int M"
    using b m by (simp add: pos_divide_le_eq mult_le_cancel_left1)
  have "\<lceil>?a\<rceil> < M"
  proof -
    have "?a \<le> real_of_int (M - 1)" using le by simp
    then have "\<lceil>?a\<rceil> \<le> M - 1" by (simp only: ceiling_le_iff)
    then show ?thesis by simp
  qed
  with u(4) have x: "X + 1 \<le> M" by simp
  have "trunc (real_of_int M / real_of_int (X + 1)) = M div (X + 1)"
    using u(2) m b by (intro trunc_div) simp_all
  with u1 have "get_pass_params M B N True = Inr (K, X, M div (X + 1))" by simp
  with u(1,2,3) x show ?thesis by blast
qed

lemma get_pass_params_eval:
  assumes n: "2 \<le> N" and q: "2 < real_of_int M / real_of_int B"
    and klo: "(real_of_int M / real_of_int B - 1) ^ k < real N"
    and khi: "real N \<le> (real_of_int M / real_of_int B - 1) ^ Suc k"
    and xlo: "x ^ Suc k < N" and xhi: "N \<le> Suc x ^ Suc k"
  shows "get_pass_params M B N upd =
           Inr (int (Suc k), int (Suc x),
                if upd then trunc (of_int M / of_int (int (Suc x) + 1)) else B)"
proof -
  let ?a = "real_of_int M / real_of_int B - 1"
  have a: "1 < ?a" using q by simp
  have K: "\<lceil>1 / (ln ?a / ln (real N))\<rceil> = int (Suc k)"
    using a n klo khi by (rule num_merges_value)
  have "\<lceil>real N powr (1 / of_int (int (Suc k)))\<rceil> = int (Suc x)"
  proof (rule fan_in_value)
    show "1 \<le> int (Suc k)" by simp
    show "1 \<le> N" using n by simp
    show "x ^ nat (int (Suc k)) < N" using xlo by (simp only: nat_int)
    show "N \<le> Suc x ^ nat (int (Suc k))" using xhi by (simp only: nat_int)
  qed
  with get_pass_params_unfold(1) [OF n q, of upd] K show ?thesis by simp
qed

section \<open>Properties of the split and merge phases\<close>

lemma concat_file_lines: "concat (file_lines s) = s"
  by (induction s rule: file_lines.induct) (auto split: list.splits)







lemma pop_all_sort: "pop_all (length h) h = Inr (sort h)"
proof -
  from pop_all_sorts [OF refl, of h] obtain xs where
    "pop_all (length h) h = Inr xs" "mset xs = mset h" "sorted xs" by blast
  then show ?thesis using properties_for_sort [of xs h] by simp
qed

lemma dir_lines_append [simp]: "dir_lines (d @ e) = dir_lines d + dir_lines e"
  by (simp add: dir_lines_def)

lemma dir_lines_single [simp]: "dir_lines [(k, c)] = mset (file_lines c)"
  by (simp add: dir_lines_def)




lemma map_of_None_iff: "map_of d k = None \<longleftrightarrow> k \<notin> fst ` set d"
  by (simp add: map_of_eq_None_iff)


lemma open_files_props:
  "open_files b files d = Inr u \<Longrightarrow> (\<forall>f\<in>set files. f \<in> fst ` set d) \<and> (files \<noteq> [] \<longrightarrow> b \<noteq> 0)"
  by (induction files) (auto simp: map_of_None_iff split: if_splits)


lemma remove_files_removed:
  "remove_files fs d = Inr d' \<Longrightarrow> (\<forall>f\<in>set fs. map_of d' f = None) \<and> set d' \<subseteq> set d"
proof (induction fs arbitrary: d)
  case Nil
  then show ?case by simp
next
  case (Cons f fs)
  from Cons.prems have r: "remove_files fs (AList.delete f d) = Inr d'"
    by (auto split: if_splits)
  from Cons.IH [OF r] have 1: "\<forall>g\<in>set fs. map_of d' g = None"
    and 2: "set d' \<subseteq> set (AList.delete f d)" by simp_all
  have "f \<notin> fst ` set (AList.delete f d)" by (auto simp: AList.delete_eq)
  with 2 have "f \<notin> fst ` set d'" by blast
  then have "map_of d' f = None" by (simp add: map_of_None_iff)
  moreover have "set (AList.delete f d) \<subseteq> set d" by (auto simp: AList.delete_eq)
  ultimately show ?case using 1 2 by auto
qed


lemma merge_files_unfold:
  assumes "merge_files b files save_path d = Inr d'"
  shows "\<forall>f\<in>set files. f \<in> fst ` set d"
    and "remove_files files
           (AList.update save_path
              (concat (heapq_merge
                 (map (\<lambda>f. file_lines (the (map_of (AList.update save_path [] d) f))) files)))
              (AList.update save_path [] d)) = Inr d'"
proof -
  from assms obtain u where u: "open_files b files d = Inr u"
    by (cases "open_files b files d") (auto simp: merge_files_def)
  from open_files_props [OF u] show "\<forall>f\<in>set files. f \<in> fst ` set d" by blast
  from assms u show "remove_files files
           (AList.update save_path
              (concat (heapq_merge
                 (map (\<lambda>f. file_lines (the (map_of (AList.update save_path [] d) f))) files)))
              (AList.update save_path [] d)) = Inr d'"
    by (auto simp: merge_files_def Let_def split: if_splits)
qed


lemma readlines_append: "readlines hint ls = (b, r) \<Longrightarrow> b @ r = ls"
  using read_block_append [of hint 0 ls b r] by (auto simp: readlines_def split: if_splits)

lemma readlines_Nil: "readlines hint ls = ([], r) \<Longrightarrow> ls = []"
proof (cases "hint \<le> 0")
  case True
  assume "readlines hint ls = ([], r)"
  with True show ?thesis by (simp add: readlines_def)
next
  case False
  assume "readlines hint ls = ([], r)"
  with False have "read_block hint 0 ls = ([], r)" by (simp add: readlines_def)
  from read_block_props [OF this] False show ?thesis by auto
qed









lemma move_to_save_path_tmp: "move_to_save_path p w = Inr w' \<Longrightarrow> tmp w' = None"
  by (auto simp: move_to_save_path_def split: option.splits if_splits)

lemma merge_ems_tmp: "merge_ems fp self ord n w = Inr w' \<Longrightarrow> tmp w' = None"
  by (auto simp: merge_ems_def split: if_splits sum.splits option.splits prod.splits
      dest: move_to_save_path_tmp)

lemma sort_ems_tmp: "sort_ems fp self ord inp w = Inr w' \<Longrightarrow> tmp w' = None"
  by (auto simp: sort_ems_def split: sum.splits dest: merge_ems_tmp)



lemma get_pass_params_fp_empty:
  "get_pass_params_fp fp M B 0 upd =
     Inl (if B = 0 then ZeroDivisionError
          else if fp_sub fp (fp_truediv fp M B) 1 \<le> 0 then ValueError
          else OverflowError)"
proof (cases "B = 0")
  case True
  then show ?thesis by (simp add: get_pass_params_fp_def py_truediv_def)
next
  case False
  let ?a = "fp_sub fp (fp_truediv fp M B) 1"
  have q: "py_truediv fp M B = Inr (fp_truediv fp M B)"
    using False by (simp add: py_truediv_def)
  have l0: "np_log fp (real 0) = Inf" by (simp add: np_log_def)
  show ?thesis
  proof (cases "?a \<le> 0")
    case True
    then have "np_log fp ?a = NaN \<or> np_log fp ?a = Inf" by (auto simp: np_log_def)
    then have "np_div fp (np_log fp ?a) Inf = NaN" by auto
    then show ?thesis using False True unfolding get_pass_params_fp_def q l0 by simp
  next
    case a: False
    then have "np_log fp ?a = Fin (fp_log fp ?a)" by (simp add: np_log_def)
    then have "np_div fp (np_log fp ?a) Inf = Fin 0" by simp
    then show ?thesis using False a unfolding get_pass_params_fp_def q l0 by simp
  qed
qed

lemma split_loop_empty: "split_loop limit idx [] d = Inr (d, idx)"
  by (simp add: split_loop.simps readlines_def)

lemma sort_ems_empty:
  "sort_ems fp self ord [] w =
     Inl (if buffer_size self = 0 then ZeroDivisionError
          else if fp_sub fp (fp_truediv fp (memory_limit self) (buffer_size self)) 1 \<le> 0
               then ValueError
          else OverflowError)"
proof -
  have "\<exists>w1. split_ems self [] (make_temp_dir w) = Inr (w1, 0)"
    by (cases "tmp w") (simp_all add: split_ems_def make_temp_dir_def split_loop_empty)
  then show ?thesis
    by (auto simp: sort_ems_def merge_ems_def get_pass_params_fp_empty)
qed

lemma split_loop_count:
  "split_loop limit idx stream d = Inr (d', n) \<Longrightarrow> idx \<le> n \<and> (stream \<noteq> [] \<longrightarrow> idx < n)"
proof (induction limit idx stream d rule: split_loop.induct)
  case (1 limit idx stream d)
  obtain block rest where rl: "readlines limit stream = (block, rest)"
    by (cases "readlines limit stream")
  show ?case
  proof (cases "block = []")
    case True
    with rl have "stream = []" using readlines_Nil by blast
    moreover from "1.prems" rl True have "n = idx" by (simp add: split_loop.simps)
    ultimately show ?thesis by simp
  next
    case False
    have pa: "pop_all (length block) (heapify block) = Inr (sort block)"
      by (simp add: heapify_def pop_all_sort)
    from "1.prems" rl False pa
    have rec: "split_loop limit (idx + 1) rest
                 (AList.update (make_tempfile_path SplitMode idx None) (concat (sort block)) d)
               = Inr (d', n)"
      by (simp add: split_loop.simps)
    from "1.IH" [OF rl [symmetric] False pa rec] show ?thesis by simp
  qed
qed

lemma split_loop_one_chunk:
  assumes "split_loop limit 0 stream [] = Inr (d', 1)"
  shows "d' = [(Split 0, concat (sort stream))]"
proof -
  obtain block rest where rl: "readlines limit stream = (block, rest)"
    by (cases "readlines limit stream")
  have ne: "block \<noteq> []"
  proof
    assume "block = []"
    with assms rl show False by (simp add: split_loop.simps)
  qed
  have pa: "pop_all (length block) (heapify block) = Inr (sort block)"
    by (simp add: heapify_def pop_all_sort)
  from assms rl ne pa
  have rec: "split_loop limit 1 rest [(Split 0, concat (sort block))] = Inr (d', 1)"
    by (simp add: split_loop.simps)
  from split_loop_count [OF rec] have "rest = []" by auto
  with rec have "d' = [(Split 0, concat (sort block))]" by (simp add: split_loop_empty)
  moreover from readlines_append [OF rl] \<open>rest = []\<close> have "block = stream" by simp
  ultimately show ?thesis by simp
qed

lemma readlines_single: "readlines hint [l] = ([l], [])"
  by (simp add: readlines_def)

lemma split_loop_single_line:
  "split_loop limit 0 [l] [] = Inr ([(Split 0, l)], 1)"
  by (subst split_loop.simps) (simp add: readlines_single heapify_def heappop_def split_loop_empty)

subsection \<open>A run with two merge passes\<close>

text \<open>
  The input \<^verbatim>\<open>"c\nb\na\nb\na\n"\<close> with \<^verbatim>\<open>memory_limit = 3\<close> and \<^verbatim>\<open>buffer_size = 1\<close>: the
  split writes three chunk files, the plan in exact arithmetic is two passes with fan-in
  2 (\<open>ln 3 / ln 2 = 1.58\<close> and \<open>\<surd>3 = 1.73\<close>, far from an integer) and buffer size
  \<open>3 / 3 = 1\<close>, and three merges leave one file.
\<close>

lemma get_pass_params_fp_three:
  "get_pass_params_fp exact 3 1 3 True = Inr (2, 2, 1)"
proof -
  have "get_pass_params 3 1 3 True =
          Inr (int (Suc 1), int (Suc 1),
               if True then trunc (of_int 3 / of_int (int (Suc 1) + 1)) else 1)"
    by (rule get_pass_params_eval) (simp_all add: power2_eq_square)
  then show ?thesis by (simp add: trunc_def get_pass_params_def)
qed

lemma merge_example:
  "merge_files 1 [Split 0, Split 1] (Merge (Some 0) 0)
     [(Split 0, [98, 10, 99, 10]), (Split 1, [97, 10, 98, 10]), (Split 2, [97, 10])]
   = Inr [(Split 2, [97, 10]), (Merge (Some 0) 0, [97, 10, 98, 10, 98, 10, 99, 10])]"
  by code_simp

lemma split_example:
  "split_ems \<lparr>memory_limit = 3, buffer_size = 1, update_buffer_size = True\<rparr>
     [99, 10, 98, 10, 97, 10, 98, 10, 97, 10]
     (make_temp_dir \<lparr>tmp = None, dest = None, merge_calls = 0\<rparr>)
   = Inr (\<lparr>tmp = Some [(Split 0, [98, 10, 99, 10]), (Split 1, [97, 10, 98, 10]),
                          (Split 2, [97, 10])],
           dest = None, merge_calls = 0\<rparr>, 3)"
  by code_simp

lemma merge_passes_example:
  "merge_passes (\<lambda>xs. xs) 1 2 (nat 2) 0
     ([(Split 0, [98, 10, 99, 10]), (Split 1, [97, 10, 98, 10]), (Split 2, [97, 10])], None, 0)
   = Inr ([(Merge (Some 1) 0, [97, 10, 97, 10, 98, 10, 98, 10, 99, 10])],
          Some (Merge (Some 1) 0), 3)"
  by code_simp

lemma sort_example:
  "sort_ems exact \<lparr>memory_limit = 3, buffer_size = 1, update_buffer_size = True\<rparr> (\<lambda>xs. xs)
     [99, 10, 98, 10, 97, 10, 98, 10, 97, 10] \<lparr>tmp = None, dest = None, merge_calls = 0\<rparr>
   = Inr \<lparr>tmp = None, dest = Some [97, 10, 97, 10, 98, 10, 98, 10, 99, 10], merge_calls = 3\<rparr>"
  unfolding sort_ems_def split_example sum.case prod.case merge_ems_def
  by (simp only: ems.simps world.simps get_pass_params_fp_three sum.case prod.case
        option.case merge_passes_example)
     (simp add: move_to_save_path_def)

section \<open>The claims\<close>

subsection \<open>The output is sorted\<close>



subsection \<open>The output is a permutation of the input\<close>



subsection \<open>An empty input\<close>

text \<open>
  C3 (a defect of the code). The claim reads: for an empty input, \<^verbatim>\<open>sort\<close> completes
  without error and produces an empty output file. The split produces no chunk, and
  \<^verbatim>\<open>_merge\<close>, which short-circuits for one chunk only, calls \<^verbatim>\<open>_get_pass_params\<close> with
  \<^verbatim>\<open>num_split_files = 0\<close>. There \<^verbatim>\<open>np.log(0)\<close> is an infinity, and the conversion to
  \<^verbatim>\<open>int\<close> raises: \<^verbatim>\<open>OverflowError\<close> when \<^verbatim>\<open>memory_limit / buffer_size - 1\<close> is positive,
  \<^verbatim>\<open>ValueError\<close> (from \<^verbatim>\<open>nan\<close>) when it is not, \<^verbatim>\<open>ZeroDivisionError\<close> for a buffer size of
  zero. So \<^verbatim>\<open>sort\<close> raises on every empty input, for every configuration, floating-point
  unit and workspace.
\<close>

theorem sort_empty_input_raises:
  "sort_ems fp self ord [] w =
     Inl (if buffer_size self = 0 then ZeroDivisionError
          else if fp_sub fp (fp_truediv fp (memory_limit self) (buffer_size self)) 1 \<le> 0
               then ValueError
          else OverflowError)"
  by (rule sort_ems_empty)

subsection \<open>Split phase: the size of a block\<close>

text \<open>
  C4 (amended). The claim reads: every block read during the split phase has cumulative
  size at most \<^verbatim>\<open>memory_limit\<close>. Each block is the result of
  \<^verbatim>\<open>f.readlines(self.memory_limit)\<close>, and that call stops only after the line that
  takes the total over the hint. What holds, for a positive limit: the block is a prefix
  of the remaining lines; the lines of the block without the last one total at most the
  limit; and when lines are left in the stream, the whole block totals more than the
  limit.
\<close>

theorem readlines_block_bound:
  assumes "0 < hint" and "readlines hint ls = (block, rest)"
  shows "block @ rest = ls \<and> total_size (butlast block) \<le> hint
         \<and> (rest \<noteq> [] \<longrightarrow> hint < total_size block)"
  using assms read_block_props [of hint 0 ls block rest] by (simp add: readlines_def)

theorem readlines_block_bound_witness:
  "(0::int) < 5
   \<and> readlines 5 [[97, 98, 10], [99, 100, 10], [101, 10]]
       = ([[97, 98, 10], [99, 100, 10]], [[101, 10]])
   \<and> total_size (butlast [[97, 98, 10], [99, 100, 10]]) \<le> 5
   \<and> 5 < total_size [[97, 98, 10], [99, 100, 10]]"
proof -
  have pos: "(0::int) < 5" by simp
  have r: "readlines 5 [[97, 98, 10], [99, 100, 10], [101, 10]]
           = ([[97, 98, 10], [99, 100, 10]], [[101, 10]])"
    by (simp add: readlines_def)
  from readlines_block_bound [OF pos r] pos r show ?thesis by simp
qed

text \<open>
  With \<^verbatim>\<open>memory_limit = 5\<close> and the lines \<^verbatim>\<open>"ab\n"\<close>, \<^verbatim>\<open>"cd\n"\<close> the first block holds
  both lines, six characters.
\<close>

theorem readlines_block_exceeds_limit:
  "\<not> total_size (fst (readlines 5 [[97, 98, 10], [99, 100, 10]])) \<le> 5"
  by (simp add: readlines_def total_size_def)

subsection \<open>The pass plan: the memory budget\<close>

text \<open>
  C5 (a defect of the code). The claim is the invariant
  \<open>(fan_in + 1) * buffer_size \<le> memory_limit\<close> of the class docstring, for the recomputed
  buffer size and for the caller's. With the caller's buffer size kept it fails: for
  \<^verbatim>\<open>memory_limit = 20480\<close>, \<^verbatim>\<open>buffer_size = 8192\<close>, two chunks and
  \<^verbatim>\<open>update_buffer_size = False\<close> the plan is two passes with fan-in 2 and the buffer size
  unchanged, and three buffers of 8192 bytes exceed 20480. The fan-in is the ceiling of
  the root of the chunk count, which can exceed the bound \<open>memory_limit / buffer_size - 1\<close>
  when that bound is not an integer. (With the recomputed size the invariant holds, see
  \<open>get_pass_params_tuned\<close>.)
\<close>

theorem get_pass_params_kept_buffer_over_budget:
  "get_pass_params 20480 8192 2 False = Inr (2, 2, 8192)
   \<and> \<not> (2 + 1) * 8192 \<le> (20480::int)"
proof -
  have "get_pass_params 20480 8192 2 False =
          Inr (int (Suc 1), int (Suc 1),
               if False then trunc (of_int 20480 / of_int (int (Suc 1) + 1)) else 8192)"
    by (rule get_pass_params_eval) (simp_all add: power2_eq_square)
  then show ?thesis by simp
qed

subsection \<open>The pass plan: no minimum buffer size\<close>

text \<open>
  C7 (amended). The claim reads: a recomputed buffer size below a minimum viable size
  is raised as a configuration error. \<^verbatim>\<open>_get_pass_params\<close> has no such check, and no
  error of that kind exists in the class. What holds, whatever the rounding of the
  floating-point unit: whenever the number of passes and the fan-in can be computed,
  that is whenever the call with \<^verbatim>\<open>update_buffer_size = False\<close> returns, the call with
  \<^verbatim>\<open>update_buffer_size = True\<close> returns the same number of passes and fan-in, and as
  buffer size \<^verbatim>\<open>int(memory_limit / (fan_in + 1))\<close>, whatever its value. (The only
  exception is a fan-in of \<open>-1\<close>, where that division raises \<^verbatim>\<open>ZeroDivisionError\<close>.)
  A buffer size of 0 is refused only later and not as a configuration error:
  \<^verbatim>\<open>_merge_files\<close> raises, from \<^verbatim>\<open>open\<close>, \<^verbatim>\<open>FileNotFoundError\<close> or \<^verbatim>\<open>ValueError\<close>.
\<close>

theorem get_pass_params_buffer_unchecked:
  "(get_pass_params_fp fp M B N False = Inr (K, X, B') \<longrightarrow>
      get_pass_params_fp fp M B N True =
        (if X = - 1 then Inl ZeroDivisionError
         else Inr (K, X, trunc (fp_truediv fp M (X + 1)))))
   \<and> (merge_files 0 files save_path d = Inl FileNotFoundError
        \<or> merge_files 0 files save_path d = Inl ValueError)"
proof (intro conjI impI)
  assume "get_pass_params_fp fp M B N False = Inr (K, X, B')"
  then show "get_pass_params_fp fp M B N True =
        (if X = - 1 then Inl ZeroDivisionError
         else Inr (K, X, trunc (fp_truediv fp M (X + 1))))"
    by (auto simp: get_pass_params_fp_def py_truediv_def split: sum.splits if_splits)
next
  have "open_files 0 files d = Inr () \<Longrightarrow> files = []"
    by (cases files) (auto split: if_splits)
  then show "merge_files 0 files save_path d = Inl FileNotFoundError
        \<or> merge_files 0 files save_path d = Inl ValueError"
    by (cases files) (auto simp: merge_files_def split: sum.splits)
qed

theorem get_pass_params_buffer_unchecked_witness:
  "get_pass_params_fp exact 5 1 10 False = Inr (2, 4, 1)
   \<and> get_pass_params_fp exact 5 1 10 True = Inr (2, 4, trunc (fp_truediv exact 5 (4 + 1)))
   \<and> trunc (fp_truediv exact 5 (4 + 1)) = 1"
proof -
  have "get_pass_params 5 1 10 False =
          Inr (int (Suc 1), int (Suc 3),
               if False then trunc (of_int 5 / of_int (int (Suc 3) + 1)) else 1)"
    by (rule get_pass_params_eval) (simp_all add: power2_eq_square)
  then have e: "get_pass_params_fp exact 5 1 10 False = Inr (2, 4, 1)"
    by (simp add: get_pass_params_def)
  from get_pass_params_buffer_unchecked [of exact 5 1 10 2 4 1] e
  have "get_pass_params_fp exact 5 1 10 True = Inr (2, 4, trunc (fp_truediv exact 5 (4 + 1)))"
    by simp
  with e show ?thesis by (simp add: trunc_def)
qed

text \<open>
  For \<^verbatim>\<open>memory_limit = 5\<close>, \<^verbatim>\<open>buffer_size = 1\<close> and ten chunks the recomputed buffer size is
  1, the least positive size (\<^verbatim>\<open>open(..., buffering=1)\<close> does not even select a buffer of
  one character, but line buffering), and it is returned, not raised. The arguments of
  the ceilings, \<open>ln 10 / ln 4 = 1.66\<close> and \<open>\<surd>10 = 3.16\<close>, are far from an integer, and
  \<open>5 / 5\<close> is exact.
\<close>

theorem get_pass_params_returns_buffer_of_one:
  "get_pass_params 5 1 10 True = Inr (2, 4, 1)"
proof -
  have "get_pass_params 5 1 10 True =
          Inr (int (Suc 1), int (Suc 3),
               if True then trunc (of_int 5 / of_int (int (Suc 3) + 1)) else 1)"
    by (rule get_pass_params_eval) (simp_all add: power2_eq_square)
  then show ?thesis by (simp add: trunc_def)
qed

subsection \<open>An input of one chunk\<close>

text \<open>
  C8 (amended). The claim reads: for an input that splits into exactly one chunk, the
  output equals the input verbatim. The merge phase indeed performs no merge (the
  counter of merges is unchanged, and the plan is not computed) and renames the chunk
  file \<^verbatim>\<open>split_0.txt\<close> to the destination; but the chunk file holds the lines of the
  input in sorted order. What holds, from a fresh workspace: the output is the
  concatenation of the sorted lines of the input; it equals the input when the lines
  of the input are already in order; in particular an input of a single line always
  splits into one chunk and is returned verbatim.
\<close>

theorem sort_one_chunk:
  assumes "fresh w"
  shows "(\<forall>w1. split_ems self inp (make_temp_dir w) = Inr (w1, 1) \<longrightarrow>
            sort_ems fp self ord inp w
              = Inr (w\<lparr>tmp := None, dest := Some (concat (sort (file_lines inp)))\<rparr>))
         \<and> (sorted (file_lines inp) \<longrightarrow> concat (sort (file_lines inp)) = inp)
         \<and> (length (file_lines inp) = 1 \<longrightarrow>
              sort_ems fp self ord inp w = Inr (w\<lparr>tmp := None, dest := Some inp\<rparr>))"
proof -
  from assms have t: "tmp (make_temp_dir w) = Some []"
    by (auto simp: fresh_def make_temp_dir_def)
  have m: "(make_temp_dir w)\<lparr>tmp := None\<rparr> = w\<lparr>tmp := None\<rparr>"
    by (simp add: make_temp_dir_def split: option.splits)
  have one: "sort_ems fp self ord inp w
              = Inr (w\<lparr>tmp := None, dest := Some (concat (sort (file_lines inp)))\<rparr>)"
    if "split_ems self inp (make_temp_dir w) = Inr (w1, 1)" for w1
  proof -
    from that t obtain d where
      sl: "split_loop (memory_limit self) 0 (file_lines inp) [] = Inr (d, 1)"
      and w1: "w1 = (make_temp_dir w)\<lparr>tmp := Some d\<rparr>"
      by (auto simp: split_ems_def split: sum.splits)
    from split_loop_one_chunk [OF sl]
    have d: "d = [(Split 0, concat (sort (file_lines inp)))]" .
    have "move_to_save_path (Split 0) w1
          = Inr ((make_temp_dir w)\<lparr>tmp := None, dest := Some (concat (sort (file_lines inp)))\<rparr>)"
      unfolding w1 d by (simp add: move_to_save_path_def)
    also have "(make_temp_dir w)\<lparr>tmp := None, dest := Some (concat (sort (file_lines inp)))\<rparr>
               = w\<lparr>tmp := None, dest := Some (concat (sort (file_lines inp)))\<rparr>"
      by (simp add: make_temp_dir_def split: option.splits)
    finally show ?thesis using that by (simp add: sort_ems_def merge_ems_def)
  qed
  have two: "concat (sort (file_lines inp)) = inp" if "sorted (file_lines inp)"
    using that by (simp add: sort_key_id_if_sorted concat_file_lines)
  have three: "sort_ems fp self ord inp w = Inr (w\<lparr>tmp := None, dest := Some inp\<rparr>)"
    if "length (file_lines inp) = 1"
  proof -
    from that obtain l where l: "file_lines inp = [l]"
      by (cases "file_lines inp") auto
    have "split_ems self inp (make_temp_dir w)
          = Inr ((make_temp_dir w)\<lparr>tmp := Some [(Split 0, l)]\<rparr>, 1)"
      using t by (simp add: split_ems_def l split_loop_single_line)
    from one [OF this] two l show ?thesis by simp
  qed
  from one two three show ?thesis by blast
qed

theorem sort_one_chunk_witness:
  "fresh \<lparr>tmp = None, dest = None, merge_calls = 0\<rparr>
   \<and> split_ems \<lparr>memory_limit = 100, buffer_size = 10, update_buffer_size = True\<rparr>
        [111, 110, 108, 121, 10] (make_temp_dir \<lparr>tmp = None, dest = None, merge_calls = 0\<rparr>)
       = Inr (\<lparr>tmp = Some [(Split 0, [111, 110, 108, 121, 10])], dest = None, merge_calls = 0\<rparr>, 1)
   \<and> sorted (file_lines [111, 110, 108, 121, 10])
   \<and> length (file_lines [111, 110, 108, 121, 10]) = 1
   \<and> sort_ems exact \<lparr>memory_limit = 100, buffer_size = 10, update_buffer_size = True\<rparr>
        (\<lambda>xs. xs) [111, 110, 108, 121, 10] \<lparr>tmp = None, dest = None, merge_calls = 0\<rparr>
       = Inr \<lparr>tmp = None, dest = Some [111, 110, 108, 121, 10], merge_calls = 0\<rparr>
   \<and> concat (sort (file_lines [111, 110, 108, 121, 10])) = [111, 110, 108, 121, 10]"
proof -
  let ?w = "\<lparr>tmp = None, dest = None, merge_calls = 0\<rparr>"
  let ?self = "\<lparr>memory_limit = 100, buffer_size = 10, update_buffer_size = True\<rparr>"
  have f: "fresh ?w" by (simp add: fresh_def)
  have s: "split_ems ?self [111, 110, 108, 121, 10] (make_temp_dir ?w)
       = Inr (\<lparr>tmp = Some [(Split 0, [111, 110, 108, 121, 10])], dest = None, merge_calls = 0\<rparr>, 1)"
    by code_simp
  have fl: "file_lines [111, 110, 108, 121, 10] = [[111, 110, 108, 121, 10]]"
    by (simp add: NL_def)
  have so: "sorted (file_lines [111, 110, 108, 121, 10])" unfolding fl by simp
  have le: "length (file_lines [111, 110, 108, 121, 10]) = 1" unfolding fl by simp
  from sort_one_chunk [OF f, of ?self "[111, 110, 108, 121, 10]" exact "\<lambda>xs. xs"] s so le
  have "sort_ems exact ?self (\<lambda>xs. xs) [111, 110, 108, 121, 10] ?w
          = Inr (?w\<lparr>tmp := None, dest := Some [111, 110, 108, 121, 10]\<rparr>)
        \<and> concat (sort (file_lines [111, 110, 108, 121, 10])) = [111, 110, 108, 121, 10]"
    by blast
  then have c1: "sort_ems exact ?self (\<lambda>xs. xs) [111, 110, 108, 121, 10] ?w
          = Inr \<lparr>tmp = None, dest = Some [111, 110, 108, 121, 10], merge_calls = 0\<rparr>"
    and c2: "concat (sort (file_lines [111, 110, 108, 121, 10])) = [111, 110, 108, 121, 10]"
    unfolding fl by simp_all
  show ?thesis by (intro conjI) (rule f s so le c1 c2)+
qed

text \<open>
  The input \<^verbatim>\<open>"b\na\n"\<close> with \<^verbatim>\<open>memory_limit = 100\<close> splits into one chunk, and the output
  is \<^verbatim>\<open>"a\nb\n"\<close>, not the input.
\<close>

theorem sort_one_chunk_reorders:
  "split_ems \<lparr>memory_limit = 100, buffer_size = 10, update_buffer_size = True\<rparr>
        [98, 10, 97, 10] (make_temp_dir \<lparr>tmp = None, dest = None, merge_calls = 0\<rparr>)
       = Inr (\<lparr>tmp = Some [(Split 0, [97, 10, 98, 10])], dest = None, merge_calls = 0\<rparr>, 1)
   \<and> sort_ems exact \<lparr>memory_limit = 100, buffer_size = 10, update_buffer_size = True\<rparr>
        (\<lambda>xs. xs) [98, 10, 97, 10] \<lparr>tmp = None, dest = None, merge_calls = 0\<rparr>
       = Inr \<lparr>tmp = None, dest = Some [97, 10, 98, 10], merge_calls = 0\<rparr>
   \<and> [97, 10, 98, 10] \<noteq> [98, 10, 97, 10::nat]"
proof -
  let ?w = "\<lparr>tmp = None, dest = None, merge_calls = 0\<rparr>"
  let ?self = "\<lparr>memory_limit = 100, buffer_size = 10, update_buffer_size = True\<rparr>"
  have s: "split_ems ?self [98, 10, 97, 10] (make_temp_dir ?w)
       = Inr (\<lparr>tmp = Some [(Split 0, [97, 10, 98, 10])], dest = None, merge_calls = 0\<rparr>, 1)"
    by code_simp
  have "sort_ems exact ?self (\<lambda>xs. xs) [98, 10, 97, 10] ?w
       = Inr \<lparr>tmp = None, dest = Some [97, 10, 98, 10], merge_calls = 0\<rparr>"
    unfolding sort_ems_def s by (simp add: merge_ems_def move_to_save_path_def)
  with s show ?thesis by simp
qed

subsection \<open>Cleanup\<close>

text \<open>
  C9. Whenever \<^verbatim>\<open>sort\<close> returns, the workspace directory no longer exists; every temporary
  file (\<^verbatim>\<open>split_*.txt\<close>, \<^verbatim>\<open>merge_*_*.txt\<close>) is created in that directory, so none remains.
  Whenever a call of \<^verbatim>\<open>_merge_files\<close> returns, none of its input files exists any more.
\<close>

theorem sort_removes_workspace:
  "(sort_ems fp self ord inp w = Inr w' \<longrightarrow> tmp w' = None)
   \<and> (merge_files b files save_path d = Inr d' \<longrightarrow> (\<forall>f\<in>set files. map_of d' f = None))"
proof (intro conjI impI)
  assume "sort_ems fp self ord inp w = Inr w'"
  then show "tmp w' = None" by (rule sort_ems_tmp)
next
  assume "merge_files b files save_path d = Inr d'"
  from merge_files_unfold(2) [OF this] show "\<forall>f\<in>set files. map_of d' f = None"
    by (auto dest: remove_files_removed)
qed

theorem sort_removes_workspace_witness:
  "sort_ems exact \<lparr>memory_limit = 3, buffer_size = 1, update_buffer_size = True\<rparr> (\<lambda>xs. xs)
     [99, 10, 98, 10, 97, 10, 98, 10, 97, 10] \<lparr>tmp = None, dest = None, merge_calls = 0\<rparr>
   = Inr \<lparr>tmp = None, dest = Some [97, 10, 97, 10, 98, 10, 98, 10, 99, 10], merge_calls = 3\<rparr>
   \<and> tmp \<lparr>tmp = None, dest = Some [97, 10, 97, 10, 98, 10, 98, 10, 99, 10], merge_calls = 3\<rparr>
       = None
   \<and> merge_files 1 [Split 0, Split 1] (Merge (Some 0) 0)
       [(Split 0, [98, 10, 99, 10]), (Split 1, [97, 10, 98, 10]), (Split 2, [97, 10])]
     = Inr [(Split 2, [97, 10]), (Merge (Some 0) 0, [97, 10, 98, 10, 98, 10, 99, 10])]
   \<and> map_of [(Split 2, [97, 10]), (Merge (Some 0) 0, [97, 10, 98, 10, 98, 10, 99, 10::nat])]
        (Split 0) = None
   \<and> map_of [(Split 2, [97, 10]), (Merge (Some 0) 0, [97, 10, 98, 10, 98, 10, 99, 10::nat])]
        (Split 1) = None"
proof -
  note t = sort_removes_workspace [of exact
      "\<lparr>memory_limit = 3, buffer_size = 1, update_buffer_size = True\<rparr>" "\<lambda>xs. xs"
      "[99, 10, 98, 10, 97, 10, 98, 10, 97, 10]" "\<lparr>tmp = None, dest = None, merge_calls = 0\<rparr>"
      "\<lparr>tmp = None, dest = Some [97, 10, 97, 10, 98, 10, 98, 10, 99, 10], merge_calls = 3\<rparr>"
      1 "[Split 0, Split 1]" "Merge (Some 0) 0"
      "[(Split 0, [98, 10, 99, 10]), (Split 1, [97, 10, 98, 10]), (Split 2, [97, 10])]"
      "[(Split 2, [97, 10]), (Merge (Some 0) 0, [97, 10, 98, 10, 98, 10, 99, 10])]"]
  from t sort_example merge_example show ?thesis by (intro conjI) simp_all
qed

subsection \<open>The k-way merge: ties\<close>

text \<open>
  C10. The merge of \<^verbatim>\<open>_merge_files\<close> is \<^verbatim>\<open>heapq.merge\<close> over the opened files. In
  every state of its heap the entry that is yielded is the least by value and then by
  input index: an entry with the same head line belongs to a later input. In particular
  the first line written is a least head line, taken from the earliest file that has it.
  For sorted inputs the whole output, each line with the index of its file, is ordered by
  line and then by index: equal lines appear in the order of their files. The output is
  a function of the list of inputs.
\<close>

theorem heapq_merge_ties_by_input_index:
  "(merge_loop h = (v, i) # out \<longrightarrow> (\<forall>(w, j, r)\<in>set h. v < w \<or> (v = w \<and> i \<le> j)))
   \<and> (heapq_merge_tagged xss = (v', i') # out' \<longrightarrow>
        (\<forall>j<length xss. xss ! j \<noteq> [] \<longrightarrow>
           v' < hd (xss ! j) \<or> (v' = hd (xss ! j) \<and> i' \<le> j)))
   \<and> ((\<forall>xs\<in>set xss. sorted xs) \<longrightarrow> sorted_wrt tag_le (heapq_merge_tagged xss))"
proof (intro conjI impI)
  assume m: "merge_loop h = (v, i) # out"
  show "\<forall>(w, j, r)\<in>set h. v < w \<or> (v = w \<and> i \<le> j)"
  proof
    fix e assume e: "e \<in> set h"
    obtain w j r where w: "e = (w, j, r)" by (cases e)
    from merge_loop_first [OF m e [unfolded w]] w
    show "case e of (w, j, r) \<Rightarrow> v < w \<or> (v = w \<and> i \<le> j)" by simp
  qed
next
  assume m: "heapq_merge_tagged xss = (v', i') # out'"
  show "\<forall>j<length xss. xss ! j \<noteq> [] \<longrightarrow>
           v' < hd (xss ! j) \<or> (v' = hd (xss ! j) \<and> i' \<le> j)"
  proof (intro allI impI)
    fix j assume j: "j < length xss" "xss ! j \<noteq> []"
    then obtain x xs where x: "xss ! j = x # xs" by (cases "xss ! j") auto
    from initial_entries_nth [OF j(1) x, of 0]
    have "(x, j, xs) \<in> set (initial_entries 0 xss)" by simp
    from merge_loop_first [OF m [unfolded heapq_merge_tagged_def] this] x
    show "v' < hd (xss ! j) \<or> (v' = hd (xss ! j) \<and> i' \<le> j)" by simp
  qed
next
  assume "\<forall>xs\<in>set xss. sorted xs"
  then show "sorted_wrt tag_le (heapq_merge_tagged xss)"
    by (rule sorted_heapq_merge_tagged)
qed

theorem heapq_merge_ties_by_input_index_witness:
  "heapq_merge_tagged [[[97, 10], [98, 10]], [[97, 10::nat]]]
       = [([97, 10], 0), ([97, 10], 1), ([98, 10], 0)]
   \<and> sorted [[97, 10], [98, 10::nat]] \<and> sorted [[97, 10::nat]]
   \<and> sorted_wrt tag_le (heapq_merge_tagged [[[97, 10], [98, 10]], [[97, 10::nat]]])"
proof -
  let ?X = "[[[97, 10], [98, 10]], [[97, 10::nat]]]"
  let ?out = "[([97, 10::nat], 1::nat), ([98, 10], 0)]"
  have b: "heapq_merge_tagged ?X = ([97, 10], 0) # ?out"
    by (simp add: heapq_merge_tagged_def entry_less_def)
  have s1: "sorted [[97, 10], [98, 10::nat]]" by simp
  have s2: "sorted [[97, 10::nat]]" by simp
  have c: "\<forall>xs\<in>set ?X. sorted xs" using s1 s2 by simp
  note T = heapq_merge_ties_by_input_index [of "[]" "[]" 0 "[]" ?X "[97, 10]" 0 ?out]
  from T [THEN conjunct2, THEN conjunct2] c
  have "sorted_wrt tag_le (heapq_merge_tagged ?X)" by (rule mp)
  with b s1 s2 show ?thesis by (intro conjI)
qed

end
